theory Spec2Isabelle
  imports Main "HOL-Library.Word" "HOL-Library.Multiset"
begin

unbundle bit_operations_syntax

section \<open>Machine types\<close>

text \<open>
  The header is modelled for an LP64 target: \<open>long\<close> (the value type of
  \<open>std::atomic_long\<close>) and \<open>size_t\<close> are both 64 bits wide.  A \<open>long\<close> is read as a
  signed number with \<open>sint\<close>, a \<open>size_t\<close> as an unsigned one with \<open>unat\<close>.  The atomic
  read-modify-write operations wrap around in two's complement, as the C++ standard
  prescribes for atomics of signed integer type.

  A \<open>T *\<close> is an address; the objects live in a heap, a function from addresses to
  objects.  The header never tests a pointer before it follows it, so the model has no
  failing branch there: every address handed to the ring is taken to hold a live object.
\<close>

type_synonym long = "64 word"
type_synonym size_t = "64 word"
type_synonym pointer = nat

section \<open>class RcuDataItem\<close>

record RcuDataItem =
  m_refCounter :: long

text \<open>
  A payload type \<open>T\<close> is a class derived from \<open>RcuDataItem\<close>: the counter of the base
  class, extended by the user's own fields, here one field \<open>val\<close> of any type.
\<close>

record 'v T = RcuDataItem +
  val :: 'v

type_synonym 'v heap = "pointer \<Rightarrow> 'v T"

text \<open>\<open>RcuDataItem() = default\<close> with the member initialiser \<open>m_refCounter{}\<close>.\<close>

definition RcuDataItem_default :: RcuDataItem where
  "RcuDataItem_default = \<lparr>m_refCounter = 0\<rparr>"

text \<open>
  \<open>RcuDataItem(const RcuDataItem &rhs) {}\<close>: the body is empty and the counter is not
  in the initialiser list, so the new object takes the member initialiser \<open>{}\<close>.
\<close>

definition RcuDataItem_copy :: "'a RcuDataItem_scheme \<Rightarrow> RcuDataItem" where
  "RcuDataItem_copy rhs = \<lparr>m_refCounter = 0\<rparr>"

text \<open>\<open>operator=(const RcuDataItem &rhs) { return *this; }\<close>\<close>

definition RcuDataItem_assign ::
  "'a RcuDataItem_scheme \<Rightarrow> 'b RcuDataItem_scheme \<Rightarrow> 'a RcuDataItem_scheme" where
  "RcuDataItem_assign this rhs = this"

text \<open>\<open>m_refCounter.fetch_sub(1)\<close>, \<open>m_refCounter.fetch_add(1)\<close>, \<open>m_refCounter.load()\<close>\<close>

definition release :: "'a RcuDataItem_scheme \<Rightarrow> 'a RcuDataItem_scheme" where
  "release this = this\<lparr>m_refCounter := m_refCounter this - 1\<rparr>"

definition acquire :: "'a RcuDataItem_scheme \<Rightarrow> 'a RcuDataItem_scheme" where
  "acquire this = this\<lparr>m_refCounter := m_refCounter this + 1\<rparr>"

definition queryRefCount :: "'a RcuDataItem_scheme \<Rightarrow> long" where
  "queryRefCount this = m_refCounter this"

text \<open>
  The implicitly defined copy operations of the derived class \<open>T\<close>: the base class
  subobject goes through the operations of \<open>RcuDataItem\<close>, the other members are
  copied.
\<close>

definition T_copy :: "'v T \<Rightarrow> 'v T" where
  "T_copy rhs = \<lparr>m_refCounter = m_refCounter (RcuDataItem_copy rhs), val = val rhs\<rparr>"

definition T_assign :: "'v T \<Rightarrow> 'v T \<Rightarrow> 'v T" where
  "T_assign this rhs = (RcuDataItem_assign this rhs)\<lparr>val := val rhs\<rparr>"

text \<open>
  A history of calls on one item: the atomic operations of all threads on one counter
  happen in one total order, so an interleaving is a list of calls.
\<close>

datatype call = Acquire | Release

fun do_call :: "call \<Rightarrow> 'a RcuDataItem_scheme \<Rightarrow> 'a RcuDataItem_scheme" where
  "do_call Acquire x = acquire x"
| "do_call Release x = release x"

definition do_calls :: "call list \<Rightarrow> 'a RcuDataItem_scheme \<Rightarrow> 'a RcuDataItem_scheme" where
  "do_calls cs x = fold do_call cs x"

section \<open>class RcuDataNoWait\<close>

text \<open>
  The template parameter \<open>BUFSZ\<close> is the first argument of every operation.  The member
  \<open>m_data\<close> is a \<open>std::array<T*,BUFSZ>\<close>: a list of \<open>unat BUFSZ\<close> addresses.
\<close>

record RcuDataNoWait =
  m_data :: "pointer list"
  m_head :: long

text \<open>\<open>static_assert(BUFSZ != 0 && (BUFSZ & (BUFSZ - 1)) == 0, ...)\<close>\<close>

definition static_assert_BUFSZ :: "size_t \<Rightarrow> bool" where
  "static_assert_BUFSZ BUFSZ \<longleftrightarrow> BUFSZ \<noteq> 0 \<and> BUFSZ AND (BUFSZ - 1) = 0"

text \<open>
  The subscript \<open>pos&(BUFSZ-1)\<close>: the \<open>long\<close> is converted to \<open>size_t\<close>, which keeps
  its bits.
\<close>

definition slot_index :: "size_t \<Rightarrow> long \<Rightarrow> nat" where
  "slot_index BUFSZ pos = unat (pos AND (BUFSZ - 1))"

text \<open>
  The constructor, \<open>std::copy(first, last, std::begin(m_data))\<close>.  The array is not
  initialised before the copy: its entries hold whatever was there, the argument
  \<open>uninit\<close>, and the copy overwrites as many of them as the range \<open>[first, last)\<close> has
  elements.  Nothing compares the length of the range with \<open>BUFSZ\<close>; a longer range
  writes past the end of the array, which the model reports as \<open>WritePastEnd\<close>.  A
  \<open>BUFSZ\<close> that fails the static assertion has no instance at all, whatever the
  arguments are.  \<open>m_head{}\<close> starts at zero.
\<close>

datatype ctor_error = StaticAssertFailed | WritePastEnd

definition std_copy :: "'a list \<Rightarrow> 'a list \<Rightarrow> 'a list" where
  "std_copy xs arr = xs @ drop (length xs) arr"

definition RcuDataNoWait_ctor ::
  "size_t \<Rightarrow> pointer list \<Rightarrow> pointer list \<Rightarrow> ctor_error + RcuDataNoWait" where
  "RcuDataNoWait_ctor BUFSZ uninit xs =
     (if \<not> static_assert_BUFSZ BUFSZ then Inl StaticAssertFailed
      else if unat BUFSZ < length xs then Inl WritePastEnd
      else Inr \<lparr>m_data = std_copy xs uninit, m_head = 0\<rparr>)"

subsection \<open>The publisher\<close>

definition publisherRead :: "size_t \<Rightarrow> RcuDataNoWait \<Rightarrow> pointer" where
  "publisherRead BUFSZ r = m_data r ! slot_index BUFSZ (m_head r)"

definition commitUpdate :: "RcuDataNoWait \<Rightarrow> RcuDataNoWait" where
  "commitUpdate r = r\<lparr>m_head := m_head r + 1\<rparr>"

text \<open>
  The loop of \<open>initUpdate\<close>,
  \<open>while ((*it)->queryRefCount() != 0) it = &m_data[(++nextPos)&(BUFSZ-1)];\<close>
  with the counts as the heap \<open>h\<close> has them.  The argument is the value of \<open>nextPos\<close>
  whose slot \<open>it\<close> points to; the result is its value when the loop is left.  The loop
  has no bound, so it is a partial function: \<open>None\<close> is a loop that never ends.
  (The increment of the local \<open>long\<close> is taken to wrap around like the atomic one.)
\<close>

partial_function (option) scan ::
  "size_t \<Rightarrow> RcuDataNoWait \<Rightarrow> 'v heap \<Rightarrow> long \<Rightarrow> long option" where
  "scan BUFSZ r h nextPos =
     (if queryRefCount (h (m_data r ! slot_index BUFSZ nextPos)) \<noteq> 0
      then scan BUFSZ r h (nextPos + 1)
      else Some nextPos)"

declare scan.simps [code]

text \<open>\<open>std::swap(*first, *it)\<close> on two positions of the array.\<close>

definition swap_slots :: "nat \<Rightarrow> nat \<Rightarrow> 'a list \<Rightarrow> 'a list" where
  "swap_slots first it d = d[first := d ! it, it := d ! first]"

text \<open>\<open>initUpdate\<close> returns the slot to write to and leaves the ring with its array swapped.\<close>

definition initUpdate ::
  "size_t \<Rightarrow> RcuDataNoWait \<Rightarrow> 'v heap \<Rightarrow> (pointer \<times> RcuDataNoWait) option" where
  "initUpdate BUFSZ r h =
     (let nextPos = m_head r + 1;
          first = slot_index BUFSZ nextPos
      in if queryRefCount (h (m_data r ! first)) \<noteq> 0
         then (case scan BUFSZ r h (nextPos + 1) of
                 None \<Rightarrow> None
               | Some nextPos' \<Rightarrow>
                   let it = slot_index BUFSZ nextPos';
                       r' = r\<lparr>m_data := swap_slots first it (m_data r)\<rparr>
                   in Some (m_data r' ! first, r'))
         else Some (m_data r ! first, r))"

text \<open>
  One update cycle of the publisher: \<open>publisherRead\<close> gives the current value,
  \<open>initUpdate\<close> the slot, the new value \<open>g\<close> of the current one is assigned to the slot
  with the assignment operator of \<open>T\<close>, and \<open>commitUpdate\<close> publishes it.
\<close>

definition update_cycle ::
  "size_t \<Rightarrow> ('v \<Rightarrow> 'v) \<Rightarrow> RcuDataNoWait \<times> 'v heap \<Rightarrow> (RcuDataNoWait \<times> 'v heap) option" where
  "update_cycle BUFSZ g = (\<lambda>(r, h).
     let cur = publisherRead BUFSZ r
     in case initUpdate BUFSZ r h of
          None \<Rightarrow> None
        | Some (slot, r') \<Rightarrow>
            let V = (h cur)\<lparr>val := g (val (h cur))\<rparr>;
                h' = h(slot := T_assign (h slot) V)
            in Some (commitUpdate r', h'))"

fun update_cycles ::
  "size_t \<Rightarrow> ('v \<Rightarrow> 'v) list \<Rightarrow> RcuDataNoWait \<times> 'v heap \<Rightarrow> (RcuDataNoWait \<times> 'v heap) option" where
  "update_cycles BUFSZ [] s = Some s"
| "update_cycles BUFSZ (g # gs) s =
     (case update_cycle BUFSZ g s of None \<Rightarrow> None | Some s' \<Rightarrow> update_cycles BUFSZ gs s')"

subsection \<open>The reader\<close>

text \<open>
  The \<open>std::unique_ptr\<close> of \<open>read\<close> with the deleter \<open>relFunc\<close>: \<open>None\<close> is the null
  pointer.  \<open>reset\<close> stores the new pointer and then calls the deleter on the old one
  if that is not null; the destructor calls the deleter on the pointer it holds.
\<close>

definition unique_ptr_reset ::
  "pointer option \<Rightarrow> pointer \<Rightarrow> 'v heap \<Rightarrow> pointer option \<times> 'v heap" where
  "unique_ptr_reset ptr p h =
     (Some p, case ptr of None \<Rightarrow> h | Some old \<Rightarrow> h(old := release (h old)))"

definition unique_ptr_destroy :: "pointer option \<Rightarrow> 'v heap \<Rightarrow> 'v heap" where
  "unique_ptr_destroy ptr h = (case ptr of None \<Rightarrow> h | Some p \<Rightarrow> h(p := release (h p)))"

text \<open>
  \<open>read\<close> run with no other thread at work between its steps: every load of \<open>m_head\<close>
  sees the same ring.  The \<open>do ... while\<close> loop has no bound of its own.
\<close>

partial_function (option) read_loop ::
  "size_t \<Rightarrow> RcuDataNoWait \<Rightarrow> 'v heap \<Rightarrow> pointer option \<Rightarrow> long
     \<Rightarrow> (pointer option \<times> 'v heap) option" where
  "read_loop BUFSZ r h ptr curHead =
     (let rawP = m_data r ! slot_index BUFSZ curHead;
          h1 = h(rawP := acquire (h rawP));
          (ptr', h2) = unique_ptr_reset ptr rawP h1;
          oldHead = curHead;
          curHead' = m_head r
      in if curHead' \<noteq> oldHead then read_loop BUFSZ r h2 ptr' curHead'
         else Some (ptr', h2))"

declare read_loop.simps [code]

definition read ::
  "size_t \<Rightarrow> RcuDataNoWait \<Rightarrow> 'v heap \<Rightarrow> (pointer option \<times> 'v heap) option" where
  "read BUFSZ r h = read_loop BUFSZ r h None (m_head r)"

subsection \<open>Readers and publisher running together\<close>

text \<open>
  \<open>read\<close> and the life of the handle it returns, cut into the steps between which
  another thread can run.  The fields of a reader are the locals of \<open>read\<close>.
  \<^item> \<open>Load_head\<close>: the \<open>unique_ptr\<close> is made, holding the null pointer, and \<open>curHead\<close>
    is loaded from \<open>m_head\<close>;
  \<^item> \<open>Fetch_slot\<close>: \<open>rawP\<close> is read from the array;
  \<^item> \<open>Acquire_slot\<close>: \<open>rawP->acquire()\<close>;
  \<^item> \<open>Reset_ptr\<close>: \<open>ptr.reset(rawP); oldHead = curHead\<close>;
  \<^item> \<open>Recheck_head\<close>: \<open>curHead\<close> is loaded again and compared; the loop goes
    round or \<open>read\<close> returns the handle;
  \<^item> \<open>Holding\<close>: the caller has the handle; its step is the destruction of the handle,
    after which the thread may call \<open>read\<close> again.
\<close>

datatype pc = Load_head | Fetch_slot | Acquire_slot | Reset_ptr | Recheck_head | Holding

record reader =
  pc :: pc
  curHead :: long
  oldHead :: long
  rawP :: pointer
  ptr :: "pointer option"

definition reader_step ::
  "size_t \<Rightarrow> RcuDataNoWait \<Rightarrow> 'v heap \<Rightarrow> reader \<Rightarrow> 'v heap \<times> reader" where
  "reader_step BUFSZ r h t =
     (case pc t of
        Load_head \<Rightarrow> (h, t\<lparr>ptr := None, curHead := m_head r, pc := Fetch_slot\<rparr>)
      | Fetch_slot \<Rightarrow>
          (h, t\<lparr>rawP := m_data r ! slot_index BUFSZ (curHead t), pc := Acquire_slot\<rparr>)
      | Acquire_slot \<Rightarrow> (h(rawP t := acquire (h (rawP t))), t\<lparr>pc := Reset_ptr\<rparr>)
      | Reset_ptr \<Rightarrow>
          (let (ptr', h') = unique_ptr_reset (ptr t) (rawP t) h
           in (h', t\<lparr>ptr := ptr', oldHead := curHead t, pc := Recheck_head\<rparr>))
      | Recheck_head \<Rightarrow>
          (let c = m_head r
           in (h, t\<lparr>curHead := c, pc := (if c \<noteq> oldHead t then Fetch_slot else Holding)\<rparr>))
      | Holding \<Rightarrow> (unique_ptr_destroy (ptr t) h, t\<lparr>ptr := None, pc := Load_head\<rparr>))"

text \<open>
  The whole system: the ring, the heap and the readers.  An action is one step of one
  reader or one of the publisher's writes to shared memory: the swap of \<open>initUpdate\<close>,
  an assignment to a payload, \<open>commitUpdate\<close>.  A schedule is a list of actions, in any
  order; an action that names a reader or a position that does not exist does nothing.
  The publisher's loads change nothing and are no actions, and no order is imposed on
  its writes, so every behaviour of the real publisher is among the schedules.  An entry
  of the array is read and written as one unit.
\<close>

record 'v system =
  ring :: RcuDataNoWait
  memory :: "'v heap"
  readers :: "reader list"

datatype 'v action =
  Reader_step nat | Publisher_swap nat nat | Publisher_write pointer "'v T" | Publisher_commit

definition system_step :: "size_t \<Rightarrow> 'v action \<Rightarrow> 'v system \<Rightarrow> 'v system" where
  "system_step BUFSZ a s =
     (case a of
        Reader_step i \<Rightarrow>
          (if i < length (readers s)
           then let (h', t') = reader_step BUFSZ (ring s) (memory s) (readers s ! i)
                in s\<lparr>memory := h', readers := (readers s)[i := t']\<rparr>
           else s)
      | Publisher_swap i j \<Rightarrow>
          (if i < length (m_data (ring s)) \<and> j < length (m_data (ring s))
           then s\<lparr>ring := (ring s)\<lparr>m_data := swap_slots i j (m_data (ring s))\<rparr>\<rparr>
           else s)
      | Publisher_write p x \<Rightarrow> s\<lparr>memory := (memory s)(p := T_assign (memory s p) x)\<rparr>
      | Publisher_commit \<Rightarrow> s\<lparr>ring := commitUpdate (ring s)\<rparr>)"

definition run :: "size_t \<Rightarrow> 'v action list \<Rightarrow> 'v system \<Rightarrow> 'v system" where
  "run BUFSZ as s = fold (system_step BUFSZ) as s"

section \<open>Vocabulary of the properties\<close>

text \<open>
  A ring is well formed when its \<open>BUFSZ\<close> passes the static assertion and its array
  has \<open>BUFSZ\<close> entries, as every instance of the class template has.
\<close>

definition ring_ok :: "size_t \<Rightarrow> RcuDataNoWait \<Rightarrow> bool" where
  "ring_ok BUFSZ r \<longleftrightarrow> static_assert_BUFSZ BUFSZ \<and> length (m_data r) = unat BUFSZ"

text \<open>The reference count of the slot that the position \<open>pos\<close> is mapped to.\<close>

definition count_at :: "size_t \<Rightarrow> RcuDataNoWait \<Rightarrow> 'v heap \<Rightarrow> long \<Rightarrow> long" where
  "count_at BUFSZ r h pos = queryRefCount (h (m_data r ! slot_index BUFSZ pos))"

text \<open>
  A heap written down as a list of addresses with their objects; every other address
  holds the object \<open>d\<close>.
\<close>

definition heap_of :: "'v T \<Rightarrow> (pointer \<times> 'v T) list \<Rightarrow> 'v heap" where
  "heap_of d xs = (\<lambda>p. case map_of xs p of None \<Rightarrow> d | Some x \<Rightarrow> x)"

text \<open>
  The number of references to the object at \<open>p\<close> that a reader holds: one for a
  candidate that is acquired and not yet stored in the \<open>unique_ptr\<close>, one for the
  pointer in the \<open>unique_ptr\<close>.  \<open>held\<close> adds them up over all readers, and \<open>surplus\<close>
  is what the counter holds beyond that.
\<close>

definition holds :: "reader \<Rightarrow> pointer \<Rightarrow> nat" where
  "holds t p = (if pc t = Reset_ptr \<and> rawP t = p then 1 else 0)
             + (if pc t \<noteq> Load_head \<and> ptr t = Some p then 1 else 0)"

definition held :: "reader list \<Rightarrow> pointer \<Rightarrow> nat" where
  "held ts p = sum_list (map (\<lambda>t. holds t p) ts)"

definition surplus :: "'v system \<Rightarrow> pointer \<Rightarrow> long" where
  "surplus s p = m_refCounter (memory s p) - of_nat (held (readers s) p)"




section \<open>Properties of RcuDataItem\<close>

lemma refCounter_do_calls:
  "m_refCounter (do_calls cs x) =
     m_refCounter x + of_nat (count_list cs Acquire) - of_nat (count_list cs Release)"
  unfolding do_calls_def
proof (induction cs arbitrary: x)
  case Nil
  show ?case by simp
next
  case (Cons c cs)
  show ?case
    by (cases c) (simp_all add: Cons.IH acquire_def release_def)
qed

lemma count_list_replicate_eq:
  "count_list (replicate n x) y = (if x = y then n else 0)"
  by (induction n) auto

lemma do_calls_replicate_Acquire:
  "m_refCounter (do_calls (replicate n Acquire) x) = m_refCounter x + of_nat n"
  by (simp add: refCounter_do_calls count_list_replicate_eq)

lemma sint_word_of_int_in_range:
  "- (2 ^ 63) \<le> i \<Longrightarrow> i < 2 ^ 63 \<Longrightarrow> sint (word_of_int i :: 64 word) = i"
  by (simp add: int_word_sint)

text \<open>
  C8.  Copy construction of an \<open>RcuDataItem\<close>, and of a payload derived from it, gives
  an object whose reference count is zero whatever the count of the source is, and copy
  assignment leaves the count of the target as it was: the count is never copied.
\<close>

theorem C8_count_not_copied:
  "m_refCounter (RcuDataItem_copy rhs) = 0
   \<and> m_refCounter (RcuDataItem_assign this rhs) = m_refCounter this
   \<and> queryRefCount (T_copy src) = 0 \<and> val (T_copy src) = val src
   \<and> queryRefCount (T_assign dst src) = queryRefCount dst \<and> val (T_assign dst src) = val src"
  by (simp add: RcuDataItem_copy_def RcuDataItem_assign_def T_copy_def T_assign_def
      queryRefCount_def)

text \<open>
  C10, as the code has it.  The counter is a 64-bit \<open>long\<close> with no guard in either
  direction: after any interleaving of \<open>a\<close> calls of acquire and \<open>r\<close> calls of release on
  an item whose count is zero, the counter holds \<open>a - r\<close> modulo \<open>2 ^ 64\<close>, and
  queryRefCount returns exactly \<open>a - r\<close> whenever that number is a \<open>long\<close>, negative
  numbers included.  An acquire followed by a release restores the count.
\<close>

theorem C10_counter_is_a_minus_r:
  fixes x :: "'a RcuDataItem_scheme" and y :: "'b RcuDataItem_scheme"
  assumes "m_refCounter x = 0"
    and "a = count_list cs Acquire" and "r = count_list cs Release"
  shows "queryRefCount (do_calls cs x) = of_nat a - of_nat r
    \<and> (- (2 ^ 63) \<le> int a - int r \<and> int a - int r < 2 ^ 63 \<longrightarrow>
           sint (queryRefCount (do_calls cs x)) = int a - int r)
    \<and> release (acquire y) = y"
proof -
  have w: "queryRefCount (do_calls cs x) = of_nat a - of_nat r"
    using assms by (simp add: queryRefCount_def refCounter_do_calls)
  have ra: "release (acquire y) = y"
    by (simp add: release_def acquire_def)
  have "queryRefCount (do_calls cs x) = (word_of_int (int a - int r) :: 64 word)"
    by (simp add: w)
  then have "- (2 ^ 63) \<le> int a - int r \<Longrightarrow> int a - int r < 2 ^ 63 \<Longrightarrow>
      sint (queryRefCount (do_calls cs x)) = int a - int r"
    by (simp only: sint_word_of_int_in_range)
  with w ra show ?thesis by blast
qed

theorem C10_counter_is_a_minus_r_witness:
  "sint (queryRefCount (do_calls [Release, Acquire, Release, Release]
      \<lparr>m_refCounter = 0\<rparr>)) = 1 - 3"
  using C10_counter_is_a_minus_r
    [where x = "\<lparr>m_refCounter = 0\<rparr>" and a = 1 and r = 3
       and cs = "[Release, Acquire, Release, Release]" and y = "\<lparr>m_refCounter = 0\<rparr>"]
  by simp

text \<open>
  C10 as the spec words it, "exactly \<open>a - r\<close>" for every number of calls, fails
  where \<open>a - r\<close> is no \<open>long\<close>: \<open>2 ^ 63\<close> calls of acquire and none of release leave the
  counter at the least \<open>long\<close>, \<open>- (2 ^ 63)\<close>.
\<close>

theorem C10_counterexample:
  "sint (queryRefCount (do_calls (replicate (2 ^ 63) Acquire) \<lparr>m_refCounter = 0\<rparr>))
     \<noteq> int (count_list (replicate (2 ^ 63) Acquire) Acquire)
       - int (count_list (replicate (2 ^ 63) Acquire) Release)"
  by (simp add: queryRefCount_def do_calls_replicate_Acquire count_list_replicate_eq)

section \<open>The static assertion and the index mask\<close>

lemma nat_pow2_of_and_pred:
  "(x::nat) \<noteq> 0 \<Longrightarrow> x AND (x - 1) = 0 \<Longrightarrow> \<exists>n. x = 2 ^ n"
proof (induction x rule: less_induct)
  case (less x)
  show ?case
  proof (cases "x = 1")
    case True
    then have "x = 2 ^ 0" by simp
    then show ?thesis by blast
  next
    case False
    with less.prems have gt: "1 < x" by simp
    show ?thesis
    proof (cases "even x")
      case True
      then obtain m where m: "x = 2 * m" by (elim evenE)
      with gt have m0: "m \<noteq> 0" by simp
      have "x - 1 = 2 * (m - 1) + 1" using m m0 by simp
      then have "x AND (x - 1) = 2 * (m AND (m - 1))"
        using m by (simp add: and_nat_rec [of "2 * m"])
      with less.prems have "m AND (m - 1) = 0" by simp
      moreover have "m < x" using m m0 by simp
      ultimately obtain n where "m = 2 ^ n" using less.IH m0 by blast
      then have "x = 2 ^ Suc n" using m by simp
      then show ?thesis by blast
    next
      case False
      then obtain m where m: "x = 2 * m + 1" by (elim oddE)
      with gt have m0: "m \<noteq> 0" by simp
      have "x AND (x - 1) = 2 * m"
        using m by (simp add: and_nat_rec [of "Suc (2 * m)" "2 * m"])
      with less.prems m0 show ?thesis by simp
    qed
  qed
qed


lemma static_assert_BUFSZ_pow2: "n < 64 \<Longrightarrow> static_assert_BUFSZ (2 ^ n)"
proof -
  assume n: "n < 64"
  have "(2 ^ n :: 64 word) AND (2 ^ n - 1) = take_bit n (2 ^ n)"
    by (simp add: take_bit_eq_mask mask_eq_exp_minus_1)
  also have "\<dots> = 0"
    by (simp add: take_bit_eq_0_iff)
  finally show ?thesis
    using n by (simp add: static_assert_BUFSZ_def)
qed

lemma static_assert_BUFSZ_imp_pow2:
  assumes "static_assert_BUFSZ B"
  shows "\<exists>n<64. B = 2 ^ n"
proof -
  from assms have nz: "B \<noteq> 0" and z: "B AND (B - 1) = 0"
    by (simp_all add: static_assert_BUFSZ_def)
  have "unat (B AND (B - 1)) = unat B AND (unat B - 1)"
    using nz by (simp add: unsigned_and_eq unat_minus_one)
  with z have "unat B AND (unat B - 1) = 0" by simp
  moreover have "unat B \<noteq> 0" using nz by (simp add: unat_eq_0)
  ultimately obtain n where n: "unat B = 2 ^ n"
    using nat_pow2_of_and_pred by blast
  have "unat B < 2 ^ 64" using unsigned_less [of B] by simp
  with n have "(2::nat) ^ n < 2 ^ 64" by simp
  then have n64: "n < 64" by (meson nat_power_less_imp_less zero_less_numeral)
  have "B = of_nat (unat B)" by simp
  also have "\<dots> = 2 ^ n" by (simp only: n) simp
  finally show ?thesis using n64 by blast
qed

lemma static_assert_iff:
  "static_assert_BUFSZ B \<longleftrightarrow> (\<exists>n<64. B = 2 ^ n)"
  using static_assert_BUFSZ_pow2 static_assert_BUFSZ_imp_pow2 by blast

lemma slot_index_pow2:
  "slot_index (2 ^ n) x = unat x mod 2 ^ n"
  unfolding slot_index_def
  by (metis mask_eq_exp_minus_1 take_bit_eq_mask take_bit_eq_mod unsigned_take_bit_eq)

lemma unat_pow2_64: "n < 64 \<Longrightarrow> unat (2 ^ n :: 64 word) = 2 ^ n"
proof -
  assume n: "n < 64"
  have "(2 ^ n :: 64 word) = of_nat (2 ^ n)" by simp
  then have "unat (2 ^ n :: 64 word) = (2 ^ n) mod 2 ^ 64"
    by (simp only: unat_of_nat) simp
  also have "\<dots> = 2 ^ n"
    using n by (intro mod_less power_strict_increasing) simp_all
  finally show ?thesis .
qed

lemma slot_index_mod:
  assumes "static_assert_BUFSZ B"
  shows "slot_index B x = unat x mod unat B"
proof -
  from assms obtain n where "n < 64" "B = 2 ^ n"
    using static_assert_BUFSZ_imp_pow2 by blast
  then show ?thesis by (simp only: slot_index_pow2 unat_pow2_64)
qed

lemma slot_index_less: "B \<noteq> 0 \<Longrightarrow> slot_index B x < unat B"
proof -
  assume nz: "B \<noteq> 0"
  have "x AND (B - 1) \<le> B - 1" by (rule word_and_le1)
  then have "unat (x AND (B - 1)) \<le> unat (B - 1)" by (simp add: word_le_nat_alt)
  also have "\<dots> < unat B" using nz by (rule measure_unat)
  finally show ?thesis by (simp add: slot_index_def)
qed

lemma slot_index_add:
  assumes "static_assert_BUFSZ B"
  shows "slot_index B (x + of_nat k) = (unat x + k) mod unat B"
proof -
  from assms obtain n where n: "n < 64" "B = 2 ^ n"
    using static_assert_BUFSZ_imp_pow2 by blast
  have dvd: "(2::nat) ^ n dvd 2 ^ 64" using n by (intro le_imp_power_dvd) simp
  have "unat (x + of_nat k) = (unat x + k) mod 2 ^ 64"
    by (simp add: unat_word_ariths unat_of_nat mod_simps)
  then have "unat (x + of_nat k) mod 2 ^ n = (unat x + k) mod 2 ^ n"
    using dvd by (simp add: mod_mod_cancel)
  then show ?thesis using n by (simp only: slot_index_pow2 unat_pow2_64)
qed

section \<open>The scan of initUpdate\<close>

lemma scan_free: "count_at B r h p = 0 \<Longrightarrow> scan B r h p = Some p"
  by (subst scan.simps) (simp add: count_at_def)

lemma scan_busy: "count_at B r h p \<noteq> 0 \<Longrightarrow> scan B r h p = scan B r h (p + 1)"
  by (subst scan.simps) (simp add: count_at_def)

lemma scan_least:
  "count_at B r h (p + of_nat k) = 0 \<Longrightarrow> (\<forall>j<k. count_at B r h (p + of_nat j) \<noteq> 0)
     \<Longrightarrow> scan B r h p = Some (p + of_nat k)"
proof (induction k arbitrary: p)
  case 0
  then show ?case by (simp add: scan_free)
next
  case (Suc k)
  from Suc.prems(2) have "count_at B r h (p + of_nat 0) \<noteq> 0" by blast
  then have step: "scan B r h p = scan B r h (p + 1)" by (simp add: scan_busy)
  have z: "count_at B r h ((p + 1) + of_nat k) = 0"
    using Suc.prems(1) by (simp add: ac_simps)
  have nz: "\<forall>j<k. count_at B r h ((p + 1) + of_nat j) \<noteq> 0"
  proof (intro allI impI)
    fix j assume "j < k"
    then have "Suc j < Suc k" by simp
    with Suc.prems(2) have "count_at B r h (p + of_nat (Suc j)) \<noteq> 0" by blast
    then show "count_at B r h ((p + 1) + of_nat j) \<noteq> 0"
      by (simp add: ac_simps)
  qed
  have "scan B r h (p + 1) = Some ((p + 1) + of_nat k)"
    using z nz by (rule Suc.IH)
  with step show ?case by (simp add: ac_simps)
qed

lemma scan_Some_free:
  assumes "scan B r h p = Some q"
  shows "count_at B r h q = 0"
proof (rule scan.raw_induct [where P = "\<lambda>B r h p q. count_at B r h q = 0", OF _ assms])
  fix f B r and h :: "'a heap" and p q
  assume "\<And>B r (h :: 'a heap) p q. f B r h p = Some q \<Longrightarrow> count_at B r h q = 0"
    and "(if queryRefCount (h (m_data r ! slot_index B p)) \<noteq> 0
          then f B r h (p + 1) else Some p) = Some q"
  then show "count_at B r h q = 0"
    by (auto simp: count_at_def split: if_splits)
qed

lemma scan_Some_offset:
  assumes "scan B r h p = Some q"
  shows "\<exists>k. q = p + of_nat k"
proof (rule scan.raw_induct [where P = "\<lambda>B r h p q. \<exists>k. q = p + of_nat k", OF _ assms])
  fix f B r and h :: "'a heap" and p q :: long
  assume IH: "\<And>B r (h :: 'a heap) p q. f B r h p = Some q \<Longrightarrow> \<exists>k. q = p + of_nat k"
    and eq: "(if queryRefCount (h (m_data r ! slot_index B p)) \<noteq> 0
          then f B r h (p + 1) else Some p) = Some q"
  show "\<exists>k. q = p + of_nat k"
  proof (cases "queryRefCount (h (m_data r ! slot_index B p)) \<noteq> 0")
    case True
    with eq have "f B r h (p + 1) = Some q" by simp
    from IH [OF this] obtain k where "q = (p + 1) + of_nat k" by blast
    then have "q = p + of_nat (Suc k)" by (simp add: ac_simps)
    then show ?thesis by blast
  next
    case False
    with eq have "q = p + of_nat 0" by simp
    then show ?thesis by blast
  qed
qed

lemma scan_None:
  assumes "\<forall>k. count_at B r h (p + of_nat k) \<noteq> 0"
  shows "scan B r h p = None"
proof (rule ccontr)
  assume "scan B r h p \<noteq> None"
  then obtain q where q: "scan B r h p = Some q" by blast
  from scan_Some_offset [OF q] obtain k where "q = p + of_nat k" by blast
  with scan_Some_free [OF q] assms show False by blast
qed


lemma swap_slots_same: "swap_slots i i d = d"
  by (simp add: swap_slots_def)

lemma swap_slots_nth_first:
  "i < length d \<Longrightarrow> swap_slots i j d ! i = d ! j"
  by (cases "i = j") (simp_all add: swap_slots_def)

lemma length_swap_slots: "length (swap_slots i j d) = length d"
  by (simp add: swap_slots_def)

lemma mset_swap_slots:
  "i < length d \<Longrightarrow> j < length d \<Longrightarrow> mset (swap_slots i j d) = mset d"
  by (simp add: swap_slots_def mset_swap)

lemma initUpdate_least:
  assumes len: "slot_index B (m_head r + 1) < length (m_data r)"
    and z: "count_at B r h (m_head r + 1 + of_nat k) = 0"
    and nz: "\<forall>j<k. count_at B r h (m_head r + 1 + of_nat j) \<noteq> 0"
  shows "initUpdate B r h =
    Some (m_data r ! slot_index B (m_head r + 1 + of_nat k),
          r\<lparr>m_data := swap_slots (slot_index B (m_head r + 1))
                 (slot_index B (m_head r + 1 + of_nat k)) (m_data r)\<rparr>)"
proof (cases k)
  case 0
  with z have "queryRefCount (h (m_data r ! slot_index B (m_head r + 1))) = 0"
    by (simp add: count_at_def)
  then show ?thesis
    using 0 by (simp add: initUpdate_def swap_slots_same)
next
  case (Suc k')
  with nz have "count_at B r h (m_head r + 1 + of_nat 0) \<noteq> 0" by blast
  then have busy: "queryRefCount (h (m_data r ! slot_index B (m_head r + 1))) \<noteq> 0"
    by (simp add: count_at_def)
  have z': "count_at B r h ((m_head r + 1 + 1) + of_nat k') = 0"
    using z Suc by (simp add: ac_simps)
  have nz': "\<forall>j<k'. count_at B r h ((m_head r + 1 + 1) + of_nat j) \<noteq> 0"
  proof (intro allI impI)
    fix j assume "j < k'"
    then have "Suc j < k" using Suc by simp
    with nz have "count_at B r h (m_head r + 1 + of_nat (Suc j)) \<noteq> 0" by blast
    then show "count_at B r h ((m_head r + 1 + 1) + of_nat j) \<noteq> 0"
      by (simp add: ac_simps)
  qed
  have "scan B r h (m_head r + 1 + 1) = Some ((m_head r + 1 + 1) + of_nat k')"
    using z' nz' by (rule scan_least)
  moreover have "(m_head r + 1 + 1) + of_nat k' = m_head r + 1 + of_nat k"
    using Suc by (simp add: ac_simps)
  ultimately have sc: "scan B r h (m_head r + 1 + 1) = Some (m_head r + 1 + of_nat k)"
    by simp
  show ?thesis
    using busy sc len by (simp add: initUpdate_def Let_def swap_slots_nth_first)
qed

lemma initUpdate_None:
  assumes "\<forall>k. count_at B r h (m_head r + 1 + of_nat k) \<noteq> 0"
  shows "initUpdate B r h = None"
proof -
  from assms have "count_at B r h (m_head r + 1 + of_nat 0) \<noteq> 0" by blast
  then have busy: "queryRefCount (h (m_data r ! slot_index B (m_head r + 1))) \<noteq> 0"
    by (simp add: count_at_def)
  have "\<forall>k. count_at B r h ((m_head r + 1 + 1) + of_nat k) \<noteq> 0"
  proof
    fix k
    from assms have "count_at B r h (m_head r + 1 + of_nat (Suc k)) \<noteq> 0" by blast
    then show "count_at B r h ((m_head r + 1 + 1) + of_nat k) \<noteq> 0"
      by (simp add: ac_simps)
  qed
  then have "scan B r h (m_head r + 1 + 1) = None" by (rule scan_None)
  with busy show ?thesis by (simp add: initUpdate_def)
qed

lemma initUpdate_SomeD:
  assumes some: "initUpdate B r h = Some (slot, r')"
    and len: "slot_index B (m_head r + 1) < length (m_data r)"
  shows "\<exists>k. count_at B r h (m_head r + 1 + of_nat k) = 0
           \<and> (\<forall>j<k. count_at B r h (m_head r + 1 + of_nat j) \<noteq> 0)
           \<and> slot = m_data r ! slot_index B (m_head r + 1 + of_nat k)
           \<and> r' = r\<lparr>m_data := swap_slots (slot_index B (m_head r + 1))
                  (slot_index B (m_head r + 1 + of_nat k)) (m_data r)\<rparr>"
proof -
  have ex: "\<exists>k. count_at B r h (m_head r + 1 + of_nat k) = 0"
  proof (rule ccontr)
    assume "\<not> ?thesis"
    then have "initUpdate B r h = None" by (intro initUpdate_None) blast
    with some show False by simp
  qed
  define k where "k = (LEAST k. count_at B r h (m_head r + 1 + of_nat k) = 0)"
  have z: "count_at B r h (m_head r + 1 + of_nat k) = 0"
    unfolding k_def using ex by (rule LeastI_ex)
  have nz: "\<forall>j<k. count_at B r h (m_head r + 1 + of_nat j) \<noteq> 0"
    unfolding k_def using not_less_Least by blast
  from initUpdate_least [OF len z nz] some z nz show ?thesis by auto
qed

section \<open>Positions of a well-formed ring\<close>

lemma ring_ok_nonzero: "ring_ok B r \<Longrightarrow> B \<noteq> 0"
  by (simp add: ring_ok_def static_assert_BUFSZ_def)

lemma ring_ok_index: "ring_ok B r \<Longrightarrow> slot_index B x < length (m_data r)"
  using slot_index_less [of B x] by (simp add: ring_ok_def static_assert_BUFSZ_def)

lemma ring_ok_index_add:
  "ring_ok B r \<Longrightarrow> slot_index B (x + of_nat k) = (unat x + k) mod length (m_data r)"
  by (simp add: ring_ok_def slot_index_add)

lemma ring_ok_index_mod:
  "ring_ok B r \<Longrightarrow> slot_index B x = unat x mod length (m_data r)"
  by (simp add: ring_ok_def slot_index_mod)

lemma mod_reach:
  fixes a i N :: nat
  assumes "i < N"
  shows "\<exists>k<N. (a + k) mod N = i"
proof -
  define k where "k = (i + (N - a mod N)) mod N"
  have N: "0 < N" using assms by simp
  have "(a + k) mod N = (a mod N + (i + (N - a mod N))) mod N"
    unfolding k_def by (simp add: mod_simps)
  also have "a mod N + (i + (N - a mod N)) = i + N"
    using mod_less_divisor [OF N, of a] by simp
  also have "(i + N) mod N = i" using assms by simp
  finally have "(a + k) mod N = i" .
  moreover have "k < N" unfolding k_def using N by simp
  ultimately show ?thesis by blast
qed

lemma mod_shift_neq:
  fixes a j N :: nat
  assumes "0 < j" "j < N"
  shows "(a + j) mod N \<noteq> a mod N"
proof
  assume "(a + j) mod N = a mod N"
  then have "N dvd (a + j) - a"
    by (subst (asm) mod_eq_dvd_iff_nat) simp_all
  then have "N dvd j" by simp
  then have "N \<le> j" using assms(1) by (intro dvd_imp_le) simp_all
  with assms(2) show False by simp
qed

lemma free_slot_reachable:
  assumes ok: "ring_ok B r" and i: "i < length (m_data r)"
    and free: "queryRefCount (h (m_data r ! i)) = 0"
  shows "\<exists>k<length (m_data r). count_at B r h (p + of_nat k) = 0"
proof -
  from mod_reach [OF i, of "unat p"] obtain k
    where k: "k < length (m_data r)" "(unat p + k) mod length (m_data r) = i" by blast
  then have "slot_index B (p + of_nat k) = i"
    using ok by (simp add: ring_ok_index_add)
  with free have "count_at B r h (p + of_nat k) = 0" by (simp add: count_at_def)
  with k show ?thesis by blast
qed

lemma scan_terminates:
  assumes ok: "ring_ok B r" and i: "i < length (m_data r)"
    and free: "queryRefCount (h (m_data r ! i)) = 0"
  shows "\<exists>q. scan B r h p = Some q"
proof -
  from free_slot_reachable [where h = h, OF ok i free] obtain k0
    where "count_at B r h (p + of_nat k0) = 0" by blast
  then have ex: "\<exists>k. count_at B r h (p + of_nat k) = 0" by blast
  define k where "k = (LEAST k. count_at B r h (p + of_nat k) = 0)"
  have "count_at B r h (p + of_nat k) = 0"
    unfolding k_def using ex by (rule LeastI_ex)
  moreover have "\<forall>j<k. count_at B r h (p + of_nat j) \<noteq> 0"
    unfolding k_def using not_less_Least by blast
  ultimately have "scan B r h p = Some (p + of_nat k)" by (rule scan_least)
  then show ?thesis by blast
qed

lemma initUpdate_Some_iff:
  assumes ok: "ring_ok B r"
  shows "(\<exists>res. initUpdate B r h = Some res)
     \<longleftrightarrow> (\<exists>i<length (m_data r). queryRefCount (h (m_data r ! i)) = 0)"
proof
  assume "\<exists>res. initUpdate B r h = Some res"
  then obtain slot r' where "initUpdate B r h = Some (slot, r')" by force
  from initUpdate_SomeD [OF this ring_ok_index [OF ok]] obtain k
    where "count_at B r h (m_head r + 1 + of_nat k) = 0" by blast
  then have "queryRefCount (h (m_data r ! slot_index B (m_head r + 1 + of_nat k))) = 0"
    by (simp add: count_at_def)
  with ring_ok_index [OF ok] show "\<exists>i<length (m_data r). queryRefCount (h (m_data r ! i)) = 0"
    by blast
next
  assume "\<exists>i<length (m_data r). queryRefCount (h (m_data r ! i)) = 0"
  then obtain i where i: "i < length (m_data r)" "queryRefCount (h (m_data r ! i)) = 0"
    by blast
  from free_slot_reachable [where h = h, OF ok i] obtain k0
    where "count_at B r h (m_head r + 1 + of_nat k0) = 0" by blast
  then have ex: "\<exists>k. count_at B r h (m_head r + 1 + of_nat k) = 0" by blast
  define k where "k = (LEAST k. count_at B r h (m_head r + 1 + of_nat k) = 0)"
  have z: "count_at B r h (m_head r + 1 + of_nat k) = 0"
    unfolding k_def using ex by (rule LeastI_ex)
  have nz: "\<forall>j<k. count_at B r h (m_head r + 1 + of_nat j) \<noteq> 0"
    unfolding k_def using not_less_Least by blast
  from initUpdate_least [OF ring_ok_index [OF ok] z nz]
  show "\<exists>res. initUpdate B r h = Some res" by blast
qed

lemma initUpdate_slot_free:
  assumes ok: "ring_ok B r" and some: "initUpdate B r h = Some (slot, r')"
  shows "queryRefCount (h slot) = 0" and "slot \<in> set (m_data r)"
proof -
  from initUpdate_SomeD [OF some ring_ok_index [OF ok]] obtain k
    where z: "count_at B r h (m_head r + 1 + of_nat k) = 0"
      and slot: "slot = m_data r ! slot_index B (m_head r + 1 + of_nat k)" by blast
  from z slot show "queryRefCount (h slot) = 0" by (simp add: count_at_def)
  from slot ring_ok_index [OF ok] show "slot \<in> set (m_data r)" by simp
qed

section \<open>Properties of the publisher\<close>

lemma update_cycle_SomeD:
  assumes "update_cycle B g (r, h) = Some (r2, h2)"
  shows "\<exists>slot r'. initUpdate B r h = Some (slot, r') \<and> r2 = commitUpdate r'
     \<and> h2 = h(slot := T_assign (h slot)
                 ((h (publisherRead B r))\<lparr>val := g (val (h (publisherRead B r)))\<rparr>))"
  using assms by (auto simp: update_cycle_def Let_def split: option.splits)

lemma count_at_busy:
  assumes ok: "ring_ok B r"
    and busy: "\<forall>i<unat B. queryRefCount (h (m_data r ! i)) \<noteq> 0"
  shows "count_at B r h x \<noteq> 0"
proof -
  have "slot_index B x < unat B"
    using ring_ok_index [OF ok, of x] ok by (simp add: ring_ok_def)
  with busy show ?thesis by (simp add: count_at_def)
qed







text \<open>
  C5.  After \<open>initUpdate\<close> has returned, the handle it returned is at position
  \<open>(head + 1) mod BUFSZ\<close> of the array; the array is the old one with that position and
  one other position \<open>j\<close> swapped, so every entry at another position is unchanged and
  the new array is a permutation of the old one; the head is unchanged.  The swap works
  on the handles: \<open>initUpdate\<close> reads the heap and returns a handle and a ring, no
  heap, so no payload is moved.
\<close>

theorem C5_initUpdate_swaps_handles:
  assumes "ring_ok BUFSZ r" and "initUpdate BUFSZ r h = Some (slot, r')"
  shows "m_data r' ! ((unat (m_head r) + 1) mod unat BUFSZ) = slot
    \<and> (\<exists>j<unat BUFSZ.
          m_data r' = swap_slots ((unat (m_head r) + 1) mod unat BUFSZ) j (m_data r)
          \<and> (\<forall>i. i \<noteq> (unat (m_head r) + 1) mod unat BUFSZ \<and> i \<noteq> j \<longrightarrow>
                 m_data r' ! i = m_data r ! i))
    \<and> mset (m_data r') = mset (m_data r)
    \<and> length (m_data r') = length (m_data r)
    \<and> m_head r' = m_head r"
proof -
  let ?first = "slot_index BUFSZ (m_head r + 1)"
  have len: "length (m_data r) = unat BUFSZ" using assms(1) by (simp add: ring_ok_def)
  have "slot_index BUFSZ (m_head r + of_nat 1) = (unat (m_head r) + 1) mod length (m_data r)"
    using assms(1) by (rule ring_ok_index_add)
  then have first: "?first = (unat (m_head r) + 1) mod unat BUFSZ"
    by (simp add: len)
  have fl: "?first < length (m_data r)" using assms(1) by (rule ring_ok_index)
  from initUpdate_SomeD [OF assms(2) fl] obtain k
    where slot: "slot = m_data r ! slot_index BUFSZ (m_head r + 1 + of_nat k)"
      and r': "r' = r\<lparr>m_data := swap_slots ?first
                 (slot_index BUFSZ (m_head r + 1 + of_nat k)) (m_data r)\<rparr>"
    by blast
  let ?it = "slot_index BUFSZ (m_head r + 1 + of_nat k)"
  have il: "?it < length (m_data r)" using assms(1) by (rule ring_ok_index)
  have d: "m_data r' = swap_slots ?first ?it (m_data r)" using r' by simp
  have 1: "m_data r' ! ?first = slot"
    using fl slot by (simp add: d swap_slots_nth_first)
  have 2: "\<forall>i. i \<noteq> ?first \<and> i \<noteq> ?it \<longrightarrow> m_data r' ! i = m_data r ! i"
    by (simp add: d swap_slots_def)
  have 3: "mset (m_data r') = mset (m_data r)"
    using fl il by (simp add: d mset_swap_slots)
  have 4: "length (m_data r') = length (m_data r)"
    by (simp add: d length_swap_slots)
  have 5: "m_head r' = m_head r" using r' by simp
  from il d 2 have "\<exists>j<unat BUFSZ. m_data r' = swap_slots ?first j (m_data r)
          \<and> (\<forall>i. i \<noteq> ?first \<and> i \<noteq> j \<longrightarrow> m_data r' ! i = m_data r ! i)"
    unfolding len by blast
  with 1 3 4 5 show ?thesis unfolding first by blast
qed

theorem C5_initUpdate_swaps_handles_witness:
  "initUpdate 4 \<lparr>m_data = [10, 11, 12, 13], m_head = 0\<rparr>
        (heap_of \<lparr>m_refCounter = 0, val = (0::nat)\<rparr> [(11, \<lparr>m_refCounter = 1, val = 5\<rparr>)])
      = Some (12, \<lparr>m_data = [10, 12, 11, 13], m_head = 0\<rparr>)
   \<and> [10, 12, 11, 13] ! ((unat (0 :: 64 word) + 1) mod unat (4 :: 64 word)) = (12 :: nat)
   \<and> mset [10, 12, 11, 13] = mset [10, 11, 12, 13 :: nat]"
proof -
  let ?r = "\<lparr>m_data = [10, 11, 12, 13], m_head = 0\<rparr>"
  let ?h = "heap_of \<lparr>m_refCounter = 0, val = (0::nat)\<rparr> [(11, \<lparr>m_refCounter = 1, val = 5\<rparr>)]"
  have ok: "ring_ok 4 ?r" by code_simp
  have iu: "initUpdate 4 ?r ?h = Some (12, \<lparr>m_data = [10, 12, 11, 13], m_head = 0\<rparr>)"
    by code_simp
  from C5_initUpdate_swaps_handles [OF ok iu] iu show ?thesis by simp
qed

text \<open>
  C6.  With the reference counts held fixed (one heap for the whole call),
  \<open>initUpdate\<close> on a well-formed ring returns if and only if some slot of the ring has
  reference count zero; what it returns is a slot of the ring with count zero; when every
  slot is referenced, the call and its scan, from whatever position, never return; and
  once some count is zero the scan returns from whatever position it has reached.
\<close>

theorem C6_initUpdate_terminates_iff_free_slot:
  assumes "ring_ok BUFSZ r"
  shows "((\<exists>res. initUpdate BUFSZ r h = Some res)
            \<longleftrightarrow> (\<exists>i<unat BUFSZ. queryRefCount (h (m_data r ! i)) = 0))
    \<and> (\<forall>slot r'. initUpdate BUFSZ r h = Some (slot, r') \<longrightarrow>
          slot \<in> set (m_data r) \<and> queryRefCount (h slot) = 0)
    \<and> ((\<forall>i<unat BUFSZ. queryRefCount (h (m_data r ! i)) \<noteq> 0) \<longrightarrow>
          initUpdate BUFSZ r h = None \<and> (\<forall>p. scan BUFSZ r h p = None))
    \<and> ((\<exists>i<unat BUFSZ. queryRefCount (h (m_data r ! i)) = 0) \<longrightarrow>
          (\<forall>p. \<exists>q. scan BUFSZ r h p = Some q))"
proof -
  have len: "length (m_data r) = unat BUFSZ" using assms by (simp add: ring_ok_def)
  have 1: "(\<exists>res. initUpdate BUFSZ r h = Some res)
            \<longleftrightarrow> (\<exists>i<unat BUFSZ. queryRefCount (h (m_data r ! i)) = 0)"
    using initUpdate_Some_iff [OF assms, of h] by (simp add: len)
  have 2: "\<forall>slot r'. initUpdate BUFSZ r h = Some (slot, r') \<longrightarrow>
          slot \<in> set (m_data r) \<and> queryRefCount (h slot) = 0"
    using initUpdate_slot_free [OF assms] by blast
  have 3: "initUpdate BUFSZ r h = None \<and> (\<forall>p. scan BUFSZ r h p = None)"
    if busy: "\<forall>i<unat BUFSZ. queryRefCount (h (m_data r ! i)) \<noteq> 0"
  proof -
    have "\<forall>x. count_at BUFSZ r h x \<noteq> 0"
      using count_at_busy [OF assms busy] by blast
    then show ?thesis by (simp add: initUpdate_None scan_None)
  qed
  have 4: "\<forall>p. \<exists>q. scan BUFSZ r h p = Some q"
    if "\<exists>i<unat BUFSZ. queryRefCount (h (m_data r ! i)) = 0"
    using that scan_terminates [where h = h, OF assms] unfolding len by blast
  from 1 2 3 4 show ?thesis by blast
qed

theorem C6_initUpdate_terminates_iff_free_slot_witness:
  "ring_ok 2 \<lparr>m_data = [10, 11], m_head = 0\<rparr>
   \<and> initUpdate 2 \<lparr>m_data = [10, 11], m_head = 0\<rparr>
        (heap_of \<lparr>m_refCounter = 1, val = (0::nat)\<rparr> []) = None
   \<and> (\<exists>res. initUpdate 2 \<lparr>m_data = [10, 11], m_head = 0\<rparr>
        (heap_of \<lparr>m_refCounter = 1, val = (0::nat)\<rparr> [(10, \<lparr>m_refCounter = 0, val = 3\<rparr>)])
          = Some res)"
proof -
  let ?r = "\<lparr>m_data = [10, 11], m_head = 0\<rparr>"
  let ?busy = "heap_of \<lparr>m_refCounter = 1, val = (0::nat)\<rparr> []"
  let ?h = "heap_of \<lparr>m_refCounter = 1, val = (0::nat)\<rparr> [(10, \<lparr>m_refCounter = 0, val = 3\<rparr>)]"
  have ok: "ring_ok 2 ?r" by code_simp
  have u2: "unat (2 :: 64 word) = 2" by simp
  have b: "\<forall>i<unat (2 :: 64 word). queryRefCount (?busy (m_data ?r ! i)) \<noteq> 0"
    by (simp add: heap_of_def queryRefCount_def)
  have f: "\<exists>i<unat (2 :: 64 word). queryRefCount (?h (m_data ?r ! i)) = 0"
    by (rule exI [of _ 0]) (simp add: heap_of_def queryRefCount_def)
  from C6_initUpdate_terminates_iff_free_slot [OF ok, of ?busy] b
  have "initUpdate 2 ?r ?busy = None" by blast
  moreover from C6_initUpdate_terminates_iff_free_slot [OF ok, of ?h] f
  have "\<exists>res. initUpdate 2 ?r ?h = Some res" by blast
  ultimately show ?thesis using ok by blast
qed

text \<open>
  C9.  \<open>BUFSZ = 1\<close> passes the static assertion and a ring of one slot is constructed;
  in such a ring the position after the head is the position of the head, and whenever
  the count of the one slot is zero \<open>initUpdate\<close> returns the currently published slot
  itself.
\<close>

theorem C9_single_slot_ring:
  "static_assert_BUFSZ 1
   \<and> RcuDataNoWait_ctor 1 [u] [x] = Inr \<lparr>m_data = [x], m_head = 0\<rparr>
   \<and> slot_index 1 (m_head r + 1) = slot_index 1 (m_head r)
   \<and> (queryRefCount (h (publisherRead 1 r)) = 0 \<longrightarrow>
        initUpdate 1 r h = Some (publisherRead 1 r, r))"
proof -
  have sa: "static_assert_BUFSZ 1" by (simp add: static_assert_BUFSZ_def)
  have idx: "slot_index 1 p = 0" for p by (simp add: slot_index_def)
  have ctor: "RcuDataNoWait_ctor 1 [u] [x] = Inr \<lparr>m_data = [x], m_head = 0\<rparr>"
    using sa by (simp add: RcuDataNoWait_ctor_def std_copy_def)
  have "initUpdate 1 r h = Some (publisherRead 1 r, r)"
    if "queryRefCount (h (publisherRead 1 r)) = 0"
    using that by (simp add: initUpdate_def publisherRead_def idx)
  with sa ctor show ?thesis by (simp add: idx)
qed

theorem C9_single_slot_ring_witness:
  "initUpdate 1 \<lparr>m_data = [10], m_head = 5\<rparr> (heap_of \<lparr>m_refCounter = 0, val = (0::nat)\<rparr> [])
     = Some (10, \<lparr>m_data = [10], m_head = 5\<rparr>)"
  using C9_single_slot_ring [of 0 10 "\<lparr>m_data = [10], m_head = 5\<rparr>"
      "heap_of \<lparr>m_refCounter = 0, val = (0::nat)\<rparr> []"]
  by (simp add: heap_of_def queryRefCount_def publisherRead_def slot_index_def)

text \<open>
  C7.  For a \<open>BUFSZ\<close> that is a power of two, constructing a ring from \<open>BUFSZ\<close>
  supplied instances gives a ring with head 0 whose slot \<open>i\<close> is the \<open>i\<close>-th instance.
  A \<open>BUFSZ\<close> that is zero or no power of two is rejected by the static assertion
  whatever the arguments of the constructor are, so no instance ever exists and nothing is
  reported at run time.
\<close>

theorem C7_construction:
  "((\<exists>n<64. BUFSZ = 2 ^ n) \<and> length xs = unat BUFSZ \<and> length uninit = unat BUFSZ \<longrightarrow>
      (\<exists>r. RcuDataNoWait_ctor BUFSZ uninit xs = Inr r \<and> m_head r = 0 \<and> m_data r = xs
           \<and> (\<forall>i<unat BUFSZ. m_data r ! i = xs ! i) \<and> ring_ok BUFSZ r))
   \<and> (\<not> (\<exists>n<64. BUFSZ = 2 ^ n) \<longrightarrow>
        RcuDataNoWait_ctor BUFSZ uninit xs = Inl StaticAssertFailed)"
  by (auto simp: RcuDataNoWait_ctor_def std_copy_def ring_ok_def static_assert_iff)

theorem C7_construction_witness:
  "RcuDataNoWait_ctor 4 [0, 0, 0, 0] [10, 11, 12, 13]
      = Inr \<lparr>m_data = [10, 11, 12, 13], m_head = 0\<rparr>
   \<and> RcuDataNoWait_ctor 6 [0, 0, 0, 0, 0, 0] [10, 11, 12, 13, 14, 15] = Inl StaticAssertFailed
   \<and> RcuDataNoWait_ctor 0 [] [] = Inl StaticAssertFailed"
proof -
  have 4: "\<exists>n<64. (4 :: 64 word) = 2 ^ n" by (rule exI [of _ 2]) simp
  have 6: "\<not> (\<exists>n<64. (6 :: 64 word) = 2 ^ n)"
    using static_assert_iff [of 6] by (simp add: static_assert_BUFSZ_def)
  have 0: "\<not> (\<exists>n<64. (0 :: 64 word) = 2 ^ n)"
    using static_assert_iff [of 0] by (simp add: static_assert_BUFSZ_def)
  from C7_construction [of 4 "[10, 11, 12, 13]" "[0, 0, 0, 0]"] 4
  have "RcuDataNoWait_ctor 4 [0, 0, 0, 0] [10, 11, 12, 13]
      = Inr \<lparr>m_data = [10, 11, 12, 13], m_head = 0\<rparr>" by auto
  moreover from C7_construction [of 6 "[10, 11, 12, 13, 14, 15]" "[0, 0, 0, 0, 0, 0]"] 6
  have "RcuDataNoWait_ctor 6 [0, 0, 0, 0, 0, 0] [10, 11, 12, 13, 14, 15] = Inl StaticAssertFailed"
    by blast
  moreover from C7_construction [of 0 "[]" "[]"] 0
  have "RcuDataNoWait_ctor 0 [] [] = Inl StaticAssertFailed" by blast
  ultimately show ?thesis by blast
qed

lemma head_offset:
  "m_head r + 1 + of_nat k = m_head r + of_nat (Suc k)"
  by (simp add: ac_simps)

text \<open>
  The sizing rule of the header, \<open>BUFSZ\<close> at least the number of reading threads plus
  two: when at most \<open>BUFSZ - 2\<close> slots are referenced, some slot at a position other
  than the head's is free.
\<close>

lemma sizing_rule_leaves_free_slot:
  assumes few: "card {i. i < unat B \<and> queryRefCount (h (m_data r ! i)) \<noteq> 0} + 2 \<le> unat B"
  shows "\<exists>i<unat B. i \<noteq> slot_index B (m_head r) \<and> queryRefCount (h (m_data r ! i)) = 0"
proof -
  let ?N = "unat B"
  let ?busy = "{i. i < ?N \<and> queryRefCount (h (m_data r ! i)) \<noteq> 0}"
  let ?free = "{i. i < ?N \<and> queryRefCount (h (m_data r ! i)) = 0}"
  have split: "?busy \<union> ?free = {..<?N}" by auto
  have disj: "?busy \<inter> ?free = {}" by auto
  have fin: "finite ?busy" "finite ?free" by simp_all
  have "card ?busy + card ?free = card {..<?N}"
    using card_Un_disjoint [OF fin disj] split by simp
  then have "card ?busy + card ?free = ?N" by simp
  with few have two: "2 \<le> card ?free" by simp
  have "\<not> ?free \<subseteq> {slot_index B (m_head r)}"
  proof
    assume "?free \<subseteq> {slot_index B (m_head r)}"
    then have "card ?free \<le> card {slot_index B (m_head r)}"
      by (intro card_mono) simp_all
    with two show False by simp
  qed
  then obtain i where "i \<in> ?free" "i \<noteq> slot_index B (m_head r)" by blast
  then show ?thesis by blast
qed

text \<open>
  C3, as the code has it.  In a well-formed ring of distinct slots in which some slot at
  a position other than the head's has reference count zero, \<open>initUpdate\<close> returns, the
  slot it returns is not the currently published slot, and the published slot stays at
  the position of the head.  (The rule that \<open>BUFSZ\<close> is at least the number of reading
  threads plus two aims at such a slot existing; a reader in a retry holds two slots for
  a moment, so the rule does not by itself make it so.)
\<close>

theorem C3_published_slot_excluded_if_other_free:
  assumes ok: "ring_ok BUFSZ r" and dist: "distinct (m_data r)"
    and free: "\<exists>i<unat BUFSZ. i \<noteq> slot_index BUFSZ (m_head r)
                 \<and> queryRefCount (h (m_data r ! i)) = 0"
  shows "\<exists>slot r'. initUpdate BUFSZ r h = Some (slot, r')
           \<and> slot \<noteq> publisherRead BUFSZ r
           \<and> publisherRead BUFSZ r' = publisherRead BUFSZ r"
proof -
  let ?N = "length (m_data r)"
  let ?hd = "slot_index BUFSZ (m_head r)"
  let ?p1 = "m_head r + 1"
  have len: "?N = unat BUFSZ" using ok by (simp add: ring_ok_def)
  have idx: "slot_index BUFSZ (?p1 + of_nat k) = (unat (m_head r) + Suc k) mod ?N" for k
    unfolding head_offset using ok by (rule ring_ok_index_add)
  have hd: "?hd = unat (m_head r) mod ?N" using ok by (rule ring_ok_index_mod)
  from free obtain i where i: "i < ?N" "i \<noteq> ?hd" "queryRefCount (h (m_data r ! i)) = 0"
    unfolding len by blast
  from mod_reach [OF i(1), of "unat (m_head r) + 1"] obtain k0
    where k0: "k0 < ?N" "(unat (m_head r) + 1 + k0) mod ?N = i" by blast
  have z0: "count_at BUFSZ r h (?p1 + of_nat k0) = 0"
    using k0(2) i(3) by (simp add: count_at_def idx)
  have "Suc k0 \<noteq> ?N"
  proof
    assume "Suc k0 = ?N"
    then have "(unat (m_head r) + 1 + k0) mod ?N = (unat (m_head r) + ?N) mod ?N"
      by (metis add.assoc plus_1_eq_Suc)
    then have "i = unat (m_head r) mod ?N" using k0(2) by simp
    with i(2) hd show False by simp
  qed
  with k0(1) have k0N: "Suc k0 < ?N" by simp
  define k where "k = (LEAST k. count_at BUFSZ r h (?p1 + of_nat k) = 0)"
  have z: "count_at BUFSZ r h (?p1 + of_nat k) = 0"
    unfolding k_def using z0 by (rule LeastI)
  have nz: "\<forall>j<k. count_at BUFSZ r h (?p1 + of_nat j) \<noteq> 0"
    unfolding k_def using not_less_Least by blast
  have "k \<le> k0" unfolding k_def using z0 by (rule Least_le)
  with k0N have kN: "Suc k < ?N" by simp
  let ?first = "slot_index BUFSZ ?p1"
  let ?it = "slot_index BUFSZ (?p1 + of_nat k)"
  have fl: "?first < ?N" using ok by (rule ring_ok_index)
  have il: "?it < ?N" using ok by (rule ring_ok_index)
  have hl: "?hd < ?N" using ok by (rule ring_ok_index)
  have "?first = (unat (m_head r) + Suc 0) mod ?N"
    using idx [of 0] by simp
  moreover have "Suc 0 < ?N" using kN by simp
  ultimately have fne: "?first \<noteq> ?hd"
    unfolding hd using mod_shift_neq [of "Suc 0" ?N "unat (m_head r)"] by simp
  have ine: "?it \<noteq> ?hd"
    unfolding hd idx using mod_shift_neq [of "Suc k" ?N "unat (m_head r)"] kN by simp
  let ?r' = "r\<lparr>m_data := swap_slots ?first ?it (m_data r)\<rparr>"
  have res: "initUpdate BUFSZ r h = Some (m_data r ! ?it, ?r')"
    using fl z nz by (rule initUpdate_least)
  have "m_data r ! ?it \<noteq> m_data r ! ?hd"
    using dist il hl ine by (simp add: nth_eq_iff_index_eq)
  then have 1: "m_data r ! ?it \<noteq> publisherRead BUFSZ r"
    by (simp add: publisherRead_def)
  have 2: "publisherRead BUFSZ ?r' = publisherRead BUFSZ r"
    using fne ine by (simp add: publisherRead_def swap_slots_def)
  from res 1 2 show ?thesis by blast
qed

theorem C3_published_slot_excluded_if_other_free_witness:
  "\<exists>slot r'. initUpdate 4 \<lparr>m_data = [10, 11, 12, 13], m_head = 0\<rparr>
        (heap_of \<lparr>m_refCounter = 1, val = (0::nat)\<rparr> [(13, \<lparr>m_refCounter = 0, val = 7\<rparr>)])
      = Some (slot, r') \<and> slot \<noteq> 10"
proof -
  let ?r = "\<lparr>m_data = [10, 11, 12, 13], m_head = 0\<rparr>"
  let ?h = "heap_of \<lparr>m_refCounter = 1, val = (0::nat)\<rparr> [(13, \<lparr>m_refCounter = 0, val = 7\<rparr>)]"
  have ok: "ring_ok 4 ?r" by code_simp
  have d: "distinct (m_data ?r)" by simp
  have f: "\<exists>i<unat (4 :: 64 word). i \<noteq> slot_index 4 (m_head ?r)
                 \<and> queryRefCount (?h (m_data ?r ! i)) = 0"
    by (rule exI [of _ 3]) (simp add: slot_index_def heap_of_def queryRefCount_def)
  have p: "publisherRead 4 ?r = 10" by (simp add: publisherRead_def slot_index_def)
  from C3_published_slot_excluded_if_other_free [OF ok d f] show ?thesis
    unfolding p by blast
qed

text \<open>
  C3 as the spec words it, for every ring state, fails: \<open>initUpdate\<close> has no test
  that keeps the scan away from the head.  In a ring of four slots whose three other
  slots are referenced while the published one is not, the scan wraps around to the
  position of the head and \<open>initUpdate\<close> returns the published slot, swapped to the
  position after the head.
\<close>

theorem C3_counterexample:
  "ring_ok 4 \<lparr>m_data = [10, 11, 12, 13], m_head = 0\<rparr>
   \<and> initUpdate 4 \<lparr>m_data = [10, 11, 12, 13], m_head = 0\<rparr>
        (heap_of \<lparr>m_refCounter = 1, val = (0::nat)\<rparr> [(10, \<lparr>m_refCounter = 0, val = 7\<rparr>)])
      = Some (publisherRead 4 \<lparr>m_data = [10, 11, 12, 13], m_head = 0\<rparr>,
              \<lparr>m_data = [11, 10, 12, 13], m_head = 0\<rparr>)"
  by code_simp

section \<open>Update cycles and the read that follows\<close>

lemma read_sequential:
  "read B r h = Some (Some (publisherRead B r),
                      h(publisherRead B r := acquire (h (publisherRead B r))))"
  unfolding read_def
  by (subst read_loop.simps) (simp add: unique_ptr_reset_def Let_def publisherRead_def)

lemma queryRefCount_T_assign: "queryRefCount (T_assign x y) = queryRefCount x"
  by (simp add: T_assign_def RcuDataItem_assign_def queryRefCount_def)

lemma val_T_assign: "val (T_assign x y) = val y"
  by (simp add: T_assign_def)

lemma val_acquire: "val (acquire x) = val x"
  by (simp add: acquire_def)

lemma update_cycle_effect:
  assumes ok: "ring_ok B r" and c: "update_cycle B g (r, h) = Some (r2, h2)"
  shows "ring_ok B r2" and "set (m_data r2) = set (m_data r)"
    and "queryRefCount (h2 p) = queryRefCount (h p)"
    and "val (h2 (publisherRead B r2)) = g (val (h (publisherRead B r)))"
proof -
  from update_cycle_SomeD [OF c] obtain slot r'
    where iu: "initUpdate B r h = Some (slot, r')" and r2: "r2 = commitUpdate r'"
      and h2: "h2 = h(slot := T_assign (h slot)
                 ((h (publisherRead B r))\<lparr>val := g (val (h (publisherRead B r)))\<rparr>))"
    by blast
  have fl: "slot_index B (m_head r + 1) < length (m_data r)" using ok by (rule ring_ok_index)
  from initUpdate_SomeD [OF iu fl] obtain k
    where slot: "slot = m_data r ! slot_index B (m_head r + 1 + of_nat k)"
      and r': "r' = r\<lparr>m_data := swap_slots (slot_index B (m_head r + 1))
                 (slot_index B (m_head r + 1 + of_nat k)) (m_data r)\<rparr>"
    by blast
  have il: "slot_index B (m_head r + 1 + of_nat k) < length (m_data r)"
    using ok by (rule ring_ok_index)
  show "ring_ok B r2"
    using ok by (simp add: r2 r' commitUpdate_def ring_ok_def length_swap_slots)
  have "mset (m_data r2) = mset (m_data r)"
    using fl il by (simp add: r2 r' commitUpdate_def mset_swap_slots)
  then show "set (m_data r2) = set (m_data r)" by (rule mset_eq_setD)
  show "queryRefCount (h2 p) = queryRefCount (h p)"
    by (simp add: h2 queryRefCount_T_assign)
  have "publisherRead B r2 = slot"
    using fl by (simp add: r2 r' slot commitUpdate_def publisherRead_def swap_slots_nth_first)
  then show "val (h2 (publisherRead B r2)) = g (val (h (publisherRead B r)))"
    by (simp add: h2 val_T_assign)
qed

lemma update_cycle_total:
  assumes ok: "ring_ok B r" and free: "\<exists>p\<in>set (m_data r). queryRefCount (h p) = 0"
  shows "\<exists>r2 h2. update_cycle B g (r, h) = Some (r2, h2)"
proof -
  from free have "\<exists>i<length (m_data r). queryRefCount (h (m_data r ! i)) = 0"
    by (metis in_set_conv_nth)
  with initUpdate_Some_iff [OF ok, of h] obtain res where "initUpdate B r h = Some res"
    by blast
  then show ?thesis
    by (cases res) (simp add: update_cycle_def Let_def)
qed

lemma update_cycles_effect:
  assumes "ring_ok B r" and "update_cycles B gs (r, h) = Some (r1, h1)"
  shows "ring_ok B r1 \<and> set (m_data r1) = set (m_data r)
     \<and> (\<forall>p. queryRefCount (h1 p) = queryRefCount (h p))"
  using assms
proof (induction gs arbitrary: r h)
  case Nil
  then show ?case by simp
next
  case (Cons g gs)
  from Cons.prems(2) obtain r' h'
    where c: "update_cycle B g (r, h) = Some (r', h')"
      and cs: "update_cycles B gs (r', h') = Some (r1, h1)"
    by (auto split: option.splits)
  note e = update_cycle_effect [OF Cons.prems(1) c]
  from Cons.IH [OF e(1) cs] e(2,3) show ?case by simp
qed

lemma update_cycles_total:
  assumes "ring_ok B r" and "\<exists>p\<in>set (m_data r). queryRefCount (h p) = 0"
  shows "\<exists>r1 h1. update_cycles B gs (r, h) = Some (r1, h1)"
  using assms
proof (induction gs arbitrary: r h)
  case Nil
  then show ?case by simp
next
  case (Cons g gs)
  from update_cycle_total [OF Cons.prems] obtain r' h'
    where c: "update_cycle B g (r, h) = Some (r', h')" by blast
  note e = update_cycle_effect [OF Cons.prems(1) c]
  have "\<exists>p\<in>set (m_data r'). queryRefCount (h' p) = 0"
    using Cons.prems(2) e(2,3) by simp
  from Cons.IH [OF e(1) this] c show ?case by simp
qed

text \<open>
  C1.  Take a well-formed ring and any sequence \<open>gs\<close> of complete update cycles, run one
  after the other, followed by one more cycle that publishes the value \<open>V\<close>, which is
  \<open>g\<close> of the value current before it.  A \<open>read\<close> after its commit returns a handle,
  and the payload under that handle is exactly \<open>V\<close>.  The cycles are complete, that is
  they all return, whenever some slot of the ring is unreferenced at the start.
\<close>

theorem C1_read_after_commit_returns_published_value:
  assumes ok: "ring_ok BUFSZ r"
  shows "(\<forall>r1 h1 r2 h2.
            update_cycles BUFSZ gs (r, h) = Some (r1, h1)
            \<and> update_cycle BUFSZ g (r1, h1) = Some (r2, h2) \<longrightarrow>
            (\<exists>p h3. read BUFSZ r2 h2 = Some (Some p, h3)
               \<and> val (h3 p) = g (val (h1 (publisherRead BUFSZ r1)))))
    \<and> ((\<exists>p\<in>set (m_data r). queryRefCount (h p) = 0) \<longrightarrow>
         (\<exists>r1 h1 r2 h2. update_cycles BUFSZ gs (r, h) = Some (r1, h1)
            \<and> update_cycle BUFSZ g (r1, h1) = Some (r2, h2)))"
proof (intro conjI allI impI)
  fix r1 h1 r2 h2
  assume a: "update_cycles BUFSZ gs (r, h) = Some (r1, h1)
            \<and> update_cycle BUFSZ g (r1, h1) = Some (r2, h2)"
  from update_cycles_effect [OF ok] a have ok1: "ring_ok BUFSZ r1" by blast
  from a have c: "update_cycle BUFSZ g (r1, h1) = Some (r2, h2)" by blast
  have v: "val (h2 (publisherRead BUFSZ r2)) = g (val (h1 (publisherRead BUFSZ r1)))"
    using ok1 c by (rule update_cycle_effect(4))
  let ?p = "publisherRead BUFSZ r2"
  have "read BUFSZ r2 h2 = Some (Some ?p, h2(?p := acquire (h2 ?p)))"
    by (rule read_sequential)
  moreover have "val ((h2(?p := acquire (h2 ?p))) ?p) = g (val (h1 (publisherRead BUFSZ r1)))"
    using v by (simp add: val_acquire)
  ultimately show "\<exists>p h3. read BUFSZ r2 h2 = Some (Some p, h3)
               \<and> val (h3 p) = g (val (h1 (publisherRead BUFSZ r1)))"
    by blast
next
  assume free: "\<exists>p\<in>set (m_data r). queryRefCount (h p) = 0"
  from update_cycles_total [OF ok free] obtain r1 h1
    where cs: "update_cycles BUFSZ gs (r, h) = Some (r1, h1)" by blast
  from update_cycles_effect [OF ok cs] free
  have ok1: "ring_ok BUFSZ r1" and "\<exists>p\<in>set (m_data r1). queryRefCount (h1 p) = 0"
    by simp_all
  from update_cycle_total [OF this] cs
  show "\<exists>r1 h1 r2 h2. update_cycles BUFSZ gs (r, h) = Some (r1, h1)
            \<and> update_cycle BUFSZ g (r1, h1) = Some (r2, h2)"
    by blast
qed

theorem C1_read_after_commit_returns_published_value_witness:
  "\<exists>r1 h1 r2 h2 p h3.
      update_cycles 4 [Suc, Suc] (\<lparr>m_data = [10, 11, 12, 13], m_head = 0\<rparr>,
          heap_of \<lparr>m_refCounter = 0, val = (0::nat)\<rparr> []) = Some (r1, h1)
      \<and> update_cycle 4 (\<lambda>v. v + 40) (r1, h1) = Some (r2, h2)
      \<and> read 4 r2 h2 = Some (Some p, h3)
      \<and> val (h3 p) = val (h1 (publisherRead 4 r1)) + 40"
proof -
  let ?r = "\<lparr>m_data = [10, 11, 12, 13], m_head = 0\<rparr>"
  let ?h = "heap_of \<lparr>m_refCounter = 0, val = (0::nat)\<rparr> []"
  have ok: "ring_ok 4 ?r" by code_simp
  have free: "\<exists>p\<in>set (m_data ?r). queryRefCount (?h p) = 0"
    by (rule bexI [of _ 10]) (simp_all add: heap_of_def queryRefCount_def)
  from C1_read_after_commit_returns_published_value
    [OF ok, of "[Suc, Suc]" ?h "\<lambda>v. v + 40"] free
  show ?thesis by blast
qed

section \<open>Reference counts under any schedule\<close>

lemma reader_step_balance:
  assumes "reader_step B r h t = (h', t')"
  shows "m_refCounter (h' p) + of_nat (holds t p) = m_refCounter (h p) + of_nat (holds t' p)"
proof (cases "pc t")
  case Load_head
  with assms show ?thesis by (auto simp: reader_step_def holds_def)
next
  case Fetch_slot
  with assms show ?thesis by (auto simp: reader_step_def holds_def)
next
  case Acquire_slot
  with assms show ?thesis by (auto simp: reader_step_def holds_def acquire_def)
next
  case Reset_ptr
  with assms show ?thesis
    by (cases "ptr t") (auto simp: reader_step_def holds_def unique_ptr_reset_def release_def)
next
  case Recheck_head
  with assms show ?thesis
    by (cases "m_head r \<noteq> oldHead t") (auto simp: reader_step_def holds_def Let_def)
next
  case Holding
  with assms show ?thesis
    by (cases "ptr t") (auto simp: reader_step_def holds_def unique_ptr_destroy_def release_def)
qed

lemma held_update:
  assumes "i < length ts"
  shows "held (ts[i := t']) p + holds (ts ! i) p = held ts p + holds t' p"
  using assms
proof (induction ts arbitrary: i)
  case Nil
  then show ?case by simp
next
  case (Cons t ts)
  show ?case
  proof (cases i)
    case 0
    then show ?thesis by (simp add: held_def)
  next
    case (Suc j)
    with Cons.prems have "j < length ts" by simp
    from Cons.IH [OF this] Suc show ?thesis by (simp add: held_def)
  qed
qed

lemma surplus_step: "surplus (system_step B a s) p = surplus s p"
proof (cases a)
  case (Reader_step i)
  show ?thesis
  proof (cases "i < length (readers s)")
    case False
    with Reader_step show ?thesis by (simp add: system_step_def)
  next
    case True
    obtain h' t' where st: "reader_step B (ring s) (memory s) (readers s ! i) = (h', t')"
      by (cases "reader_step B (ring s) (memory s) (readers s ! i)") blast
    from reader_step_balance [OF st, of p]
    have 1: "m_refCounter (h' p) + of_nat (holds (readers s ! i) p)
               = m_refCounter (memory s p) + of_nat (holds t' p)" .
    from held_update [OF True, of t' p]
    have "(of_nat (held ((readers s)[i := t']) p + holds (readers s ! i) p) :: long)
            = of_nat (held (readers s) p + holds t' p)" by simp
    then have 2: "(of_nat (held ((readers s)[i := t']) p) :: long)
                   + of_nat (holds (readers s ! i) p)
               = of_nat (held (readers s) p) + of_nat (holds t' p)" by simp
    have "m_refCounter (h' p) - of_nat (held ((readers s)[i := t']) p)
        = m_refCounter (memory s p) - of_nat (held (readers s) p)"
    proof -
      have "m_refCounter (h' p) - of_nat (held ((readers s)[i := t']) p)
          = (m_refCounter (h' p) + of_nat (holds (readers s ! i) p))
            - (of_nat (held ((readers s)[i := t']) p) + of_nat (holds (readers s ! i) p))"
        by simp
      also have "\<dots> = (m_refCounter (memory s p) + of_nat (holds t' p))
            - (of_nat (held (readers s) p) + of_nat (holds t' p))"
        by (simp only: 1 2)
      also have "\<dots> = m_refCounter (memory s p) - of_nat (held (readers s) p)"
        by simp
      finally show ?thesis .
    qed
    with Reader_step True st show ?thesis by (simp add: system_step_def surplus_def)
  qed
next
  case (Publisher_swap i j)
  then show ?thesis by (simp add: system_step_def surplus_def)
next
  case (Publisher_write q x)
  then show ?thesis
    by (simp add: system_step_def surplus_def T_assign_def RcuDataItem_assign_def)
next
  case Publisher_commit
  then show ?thesis by (simp add: system_step_def surplus_def)
qed

lemma surplus_run: "surplus (run B as s) p = surplus s p"
  unfolding run_def by (induction as arbitrary: s) (simp_all add: surplus_step)


lemma holds_le_2: "holds t p \<le> 2"
  by (simp add: holds_def)

lemma held_le: "held ts p \<le> 2 * length ts"
proof (induction ts)
  case Nil
  show ?case by (simp add: held_def)
next
  case (Cons t ts)
  have "held (t # ts) p = holds t p + held ts p" by (simp add: held_def)
  with Cons holds_le_2 [of t p] show ?case by simp
qed

lemma held_idle:
  assumes "\<forall>t\<in>set ts. pc t = Load_head"
  shows "held ts p = 0"
  using assms by (induction ts) (simp_all add: held_def holds_def)

lemma length_readers_step: "length (readers (system_step B a s)) = length (readers s)"
  by (cases a) (auto simp: system_step_def split: prod.splits)

lemma length_readers_run: "length (readers (run B as s)) = length (readers s)"
  unfolding run_def by (induction as arbitrary: s) (simp_all add: length_readers_step)

lemma sint_of_nat_in_range:
  assumes "n < 2 ^ 63"
  shows "sint (of_nat n :: 64 word) = int n"
proof -
  have "(of_nat n :: 64 word) = word_of_int (int n)" by simp
  moreover have "- (2 ^ 63) \<le> int n" by simp
  moreover have "int n < 2 ^ 63" using assms by (metis of_nat_less_iff of_nat_numeral of_nat_power)
  ultimately show ?thesis by (simp only: sint_word_of_int_in_range)
qed

lemma count_is_held:
  assumes idle: "\<forall>t\<in>set (readers s0). pc t = Load_head"
    and zero: "\<forall>p. queryRefCount (memory s0 p) = 0"
  shows "queryRefCount (memory (run B as s0) p) = of_nat (held (readers (run B as s0)) p)"
proof -
  have "surplus s0 p = 0"
    using zero held_idle [OF idle, of p] by (simp add: surplus_def queryRefCount_def)
  then have "surplus (run B as s0) p = 0" by (simp add: surplus_run)
  then show ?thesis by (simp add: surplus_def queryRefCount_def)
qed

text \<open>
  A reader that runs its five steps with nothing in between does what \<open>read\<close> does.
\<close>

lemma reader_alone_is_read:
  assumes "readers s = [t]" and "pc t = Load_head"
  shows "read B (ring s) (memory s)
     = Some (ptr (readers (run B (replicate 5 (Reader_step 0)) s) ! 0),
             memory (run B (replicate 5 (Reader_step 0)) s))
    \<and> pc (readers (run B (replicate 5 (Reader_step 0)) s) ! 0) = Holding"
  using assms
  by (simp add: read_sequential run_def numeral_eq_Suc system_step_def reader_step_def
      unique_ptr_reset_def publisherRead_def Let_def)


text \<open>
  C4.  Start with every counter at zero and every reader about to call \<open>read\<close>, and let
  the readers and the publisher run under any schedule.  At every moment the counter of
  every slot is exactly the number of references the readers hold to it: each step that
  acquires adds one, each retry releases the candidate it discards exactly once (the
  \<open>reset\<close> of the handle), and the destruction of a returned handle releases its slot
  exactly once.  So no counter is ever negative, and whenever all readers have released
  their handles every counter is back at zero.  (There are fewer than \<open>2 ^ 62\<close> readers:
  each is a thread with a handle of its own in a 64-bit address space.)
\<close>

theorem C4_reference_counts_balanced:
  fixes s0 :: "'v system"
  assumes idle: "\<forall>t\<in>set (readers s0). pc t = Load_head"
    and zero: "\<forall>p. queryRefCount (memory s0 p) = 0"
    and bound: "length (readers s0) < 2 ^ 62"
  shows "(\<forall>p. sint (queryRefCount (memory (run BUFSZ as s0) p))
               = int (held (readers (run BUFSZ as s0)) p))
    \<and> (\<forall>p. 0 \<le> sint (queryRefCount (memory (run BUFSZ as s0) p)))
    \<and> ((\<forall>t\<in>set (readers (run BUFSZ as s0)). pc t = Load_head) \<longrightarrow>
          (\<forall>p. queryRefCount (memory (run BUFSZ as s0) p) = 0))
    \<and> (\<forall>r (h :: 'v heap) t old. pc t = Reset_ptr \<and> ptr t = Some old \<longrightarrow>
          fst (reader_step BUFSZ r h t) = h(old := release (h old)))
    \<and> (\<forall>r (h :: 'v heap) t p. pc t = Holding \<and> ptr t = Some p \<longrightarrow>
          fst (reader_step BUFSZ r h t) = h(p := release (h p)))"
proof -
  let ?s = "run BUFSZ as s0"
  have c: "queryRefCount (memory ?s p) = of_nat (held (readers ?s) p)" for p
    using idle zero by (rule count_is_held)
  have "held (readers ?s) p < 2 ^ 63" for p
  proof -
    have "held (readers ?s) p \<le> 2 * length (readers s0)"
      using held_le [of "readers ?s" p] by (simp add: length_readers_run)
    also have "\<dots> < 2 * 2 ^ 62" using bound by simp
    finally show ?thesis by simp
  qed
  then have 1: "sint (queryRefCount (memory ?s p)) = int (held (readers ?s) p)" for p
    by (simp add: c sint_of_nat_in_range)
  then have 2: "0 \<le> sint (queryRefCount (memory ?s p))" for p by simp
  have 3: "queryRefCount (memory ?s p) = 0"
    if "\<forall>t\<in>set (readers ?s). pc t = Load_head" for p
    using held_idle [OF that, of p] by (simp add: c)
  have 4: "fst (reader_step BUFSZ r h t) = h(old := release (h old))"
    if "pc t = Reset_ptr \<and> ptr t = Some old" for r t old and h :: "'v heap"
    using that by (simp add: reader_step_def unique_ptr_reset_def)
  have 5: "fst (reader_step BUFSZ r h t) = h(p := release (h p))"
    if "pc t = Holding \<and> ptr t = Some p" for r t p and h :: "'v heap"
    using that by (simp add: reader_step_def unique_ptr_destroy_def)
  show ?thesis
  proof (intro conjI allI impI)
    fix p show "sint (queryRefCount (memory ?s p)) = int (held (readers ?s) p)" by (rule 1)
  next
    fix p show "0 \<le> sint (queryRefCount (memory ?s p))" by (rule 2)
  next
    fix p assume "\<forall>t\<in>set (readers ?s). pc t = Load_head"
    then show "queryRefCount (memory ?s p) = 0" by (rule 3)
  next
    fix r old and t :: reader and h :: "'v heap"
    assume "pc t = Reset_ptr \<and> ptr t = Some old"
    then show "fst (reader_step BUFSZ r h t) = h(old := release (h old))" by (rule 4)
  next
    fix r p and t :: reader and h :: "'v heap"
    assume "pc t = Holding \<and> ptr t = Some p"
    then show "fst (reader_step BUFSZ r h t) = h(p := release (h p))" by (rule 5)
  qed
qed

theorem C4_reference_counts_balanced_witness:
  "map pc (readers (run 4
        [Reader_step 0, Reader_step 0, Reader_step 0, Publisher_commit, Reader_step 0,
         Reader_step 0, Reader_step 1, Reader_step 0, Reader_step 0, Reader_step 0,
         Reader_step 0, Reader_step 0]
        \<lparr>ring = \<lparr>m_data = [10, 11, 12, 13], m_head = 0\<rparr>,
         memory = heap_of \<lparr>m_refCounter = 0, val = (0::nat)\<rparr> [],
         readers = [\<lparr>pc = Load_head, curHead = 0, oldHead = 0, rawP = 0, ptr = None\<rparr>,
                    \<lparr>pc = Load_head, curHead = 0, oldHead = 0, rawP = 0, ptr = None\<rparr>]\<rparr>))
      = [Load_head, Fetch_slot]
   \<and> sint (queryRefCount (memory (run 4
        [Reader_step 0, Reader_step 0, Reader_step 0, Publisher_commit, Reader_step 0,
         Reader_step 0, Reader_step 1, Reader_step 0, Reader_step 0, Reader_step 0,
         Reader_step 0, Reader_step 0]
        \<lparr>ring = \<lparr>m_data = [10, 11, 12, 13], m_head = 0\<rparr>,
         memory = heap_of \<lparr>m_refCounter = 0, val = (0::nat)\<rparr> [],
         readers = [\<lparr>pc = Load_head, curHead = 0, oldHead = 0, rawP = 0, ptr = None\<rparr>,
                    \<lparr>pc = Load_head, curHead = 0, oldHead = 0, rawP = 0, ptr = None\<rparr>]\<rparr>) 10)) = 0
   \<and> sint (queryRefCount (memory (run 4
        [Reader_step 0, Reader_step 0, Reader_step 0, Publisher_commit, Reader_step 0,
         Reader_step 0, Reader_step 1, Reader_step 0, Reader_step 0]
        \<lparr>ring = \<lparr>m_data = [10, 11, 12, 13], m_head = 0\<rparr>,
         memory = heap_of \<lparr>m_refCounter = 0, val = (0::nat)\<rparr> [],
         readers = [\<lparr>pc = Load_head, curHead = 0, oldHead = 0, rawP = 0, ptr = None\<rparr>,
                    \<lparr>pc = Load_head, curHead = 0, oldHead = 0, rawP = 0, ptr = None\<rparr>]\<rparr>) 10)) = 1"
proof -
  let ?t0 = "\<lparr>pc = Load_head, curHead = 0, oldHead = 0, rawP = 0, ptr = None\<rparr>"
  let ?s0 = "\<lparr>ring = \<lparr>m_data = [10, 11, 12, 13], m_head = 0\<rparr>,
         memory = heap_of \<lparr>m_refCounter = 0, val = (0::nat)\<rparr> [],
         readers = [?t0, ?t0]\<rparr>"
  let ?mid = "[Reader_step 0, Reader_step 0, Reader_step 0, Publisher_commit, Reader_step 0,
         Reader_step 0, Reader_step 1, Reader_step 0, Reader_step 0]"
  let ?all = "[Reader_step 0, Reader_step 0, Reader_step 0, Publisher_commit, Reader_step 0,
         Reader_step 0, Reader_step 1, Reader_step 0, Reader_step 0, Reader_step 0,
         Reader_step 0, Reader_step 0]"
  have idle: "\<forall>t\<in>set (readers ?s0). pc t = Load_head" by simp
  have zero: "\<forall>p. queryRefCount (memory ?s0 p) = 0"
    by (simp add: heap_of_def queryRefCount_def)
  have bound: "length (readers ?s0) < 2 ^ 62" by simp
  note c4 = C4_reference_counts_balanced [OF idle zero bound, of 4]
  have ra: "readers (run 4 ?all ?s0)
      = [\<lparr>pc = Load_head, curHead = 1, oldHead = 1, rawP = 11, ptr = None\<rparr>,
         \<lparr>pc = Fetch_slot, curHead = 1, oldHead = 0, rawP = 0, ptr = None\<rparr>]"
    by code_simp
  have rm: "readers (run 4 ?mid ?s0)
      = [\<lparr>pc = Reset_ptr, curHead = 1, oldHead = 0, rawP = 11, ptr = Some 10\<rparr>,
         \<lparr>pc = Fetch_slot, curHead = 1, oldHead = 0, rawP = 0, ptr = None\<rparr>]"
    by code_simp
  have ha: "held (readers (run 4 ?all ?s0)) 10 = 0"
    unfolding ra by (simp add: held_def holds_def)
  have hm: "held (readers (run 4 ?mid ?s0)) 10 = 1"
    unfolding rm by (simp add: held_def holds_def)
  have "sint (queryRefCount (memory (run 4 ?all ?s0) 10))
          = int (held (readers (run 4 ?all ?s0)) 10)"
    using c4 [of ?all] by blast
  then have 1: "sint (queryRefCount (memory (run 4 ?all ?s0) 10)) = 0"
    by (simp only: ha of_nat_0)
  have "sint (queryRefCount (memory (run 4 ?mid ?s0) 10))
          = int (held (readers (run 4 ?mid ?s0)) 10)"
    using c4 [of ?mid] by blast
  then have 2: "sint (queryRefCount (memory (run 4 ?mid ?s0) 10)) = 1"
    by (simp only: hm of_nat_1)
  have 3: "map pc (readers (run 4 ?all ?s0)) = [Load_head, Fetch_slot]"
    unfolding ra by simp
  from 1 2 3 show ?thesis by blast
qed

end
